theory Spec2Isabelle
  imports Main
begin

section \<open>The parallel executor of ploomber (executors/Parallel.py)\<close>

text \<open>
  The module holds the class \<open>TaskBuildWrapper\<close>, the executor \<open>Parallel\<close> with the two
  closures \<open>callback\<close> and \<open>next_task\<close> of its \<open>__call__\<close>, and the function
  \<open>get_future_result\<close>. The DAG, its tasks, the status enumeration, the exception
  collector and the process pool are imported from elsewhere.

  A task object is referred to by its name, the key under which the DAG holds it; the
  attribute \<open>exec_status\<close> of all task objects is a store from names to statuses.
  \<open>exec_status\<close> is a property of the task class: an assignment to it runs the setter of
  the task model, which may refuse the value and may derive new statuses for other tasks.
  The setter and the base class \<open>Executor\<close> are not part of this module; the functions
  below take them as parameters. The log handler and all log output are left out.
\<close>

subsection \<open>Data\<close>

type_synonym name = string

text \<open>
  Modelled from the spec: the enumeration \<open>TaskStatus\<close> of \<open>ploomber.constants\<close>, of
  which the module only has the import. The six states are those of the specification's
  status table; \<open>OtherStatus\<close> stands for any further value the attribute may hold,
  since the executor compares it with these six only.
\<close>

datatype TaskStatus =
    WaitingExecution
  | Executed
  | Skipped
  | Aborted
  | Errored
  | BrokenProcessPool
  | OtherStatus string

text \<open>
  What \<open>task.build\<close> may raise. The wrapper's handler is \<open>except Exception\<close>, so the
  model keeps apart the instances of \<open>Exception\<close> and the other instances of
  \<open>BaseException\<close> (\<open>SystemExit\<close>, \<open>KeyboardInterrupt\<close>, \<open>GeneratorExit\<close>). The
  string is the text \<open>traceback.format_exc()\<close> renders while the exception is handled.
\<close>

datatype raised =
    ExceptionInstance string
  | BaseExceptionOnly string

text \<open>
  What \<open>task.build\<close> may return: a status, or some other Python value, given here by
  its \<open>repr\<close>.
\<close>

datatype py_value =
    StatusValue TaskStatus
  | OtherValue string

text \<open>
  The value a build invocation hands back: an \<open>ExceptionResult\<close> with its two fields
  \<open>task_str\<close> and \<open>traceback_str\<close>, or whatever \<open>task.build\<close> returned.
\<close>

datatype result =
    ExceptionResult (task_str: string) (traceback_str: string)
  | Returned py_value

text \<open>
  What \<open>future.result()\<close> does once the future is resolved: it returns the value of the
  invocation, raises \<open>BrokenProcessPool\<close>, or raises something else.
\<close>

datatype future_exception =
    BrokenProcessPoolRaised
  | OtherRaised string

datatype outcome =
    Returns result
  | Raises future_exception

type_synonym future = nat

text \<open>
  The exceptions that leave the module's functions. \<open>DAGBuildError\<close> carries the
  collected exception results, from which its message is formatted;
  \<open>BrokenProcessPoolError\<close> carries the task that \<open>get_future_result\<close> puts in its
  message; \<open>SubmitBrokenProcessPool\<close> is the \<open>BrokenProcessPool\<close> that \<open>pool.submit\<close>
  raises on a broken pool; \<open>Raised\<close> is an exception of the setter or of the base
  class, given by its class name.
\<close>

datatype error =
    KeyError
  | DAGBuildError "result list"
  | BrokenProcessPoolError name
  | Propagated future_exception
  | SubmitBrokenProcessPool
  | Raised string

datatype stop = StopIteration

text \<open>
  The variables the closures of \<open>__call__\<close> share: \<open>done\<close>, \<open>started\<close> and
  \<open>future_mapping\<close> (a dictionary, kept in insertion order), the counter \<open>self._i\<close>,
  and the statuses of the task objects.
\<close>

record state =
  exec_status :: "name \<Rightarrow> TaskStatus"
  done_list :: "name list"
  started :: "name list"
  future_mapping :: "(future \<times> name) list"
  self_i :: nat

text \<open>
  The setter of \<open>exec_status\<close>, a parameter: for a task, an assigned value and the
  statuses of all tasks it raises or gives the statuses after the assignment. A setter that
  raises leaves the statuses as they were.
\<close>

type_synonym setter = "name \<Rightarrow> py_value \<Rightarrow> (name \<Rightarrow> TaskStatus) \<Rightarrow> error + (name \<Rightarrow> TaskStatus)"

subsection \<open>TaskBuildWrapper\<close>

text \<open>
  \<open>TaskBuildWrapper.__call__\<close>: \<open>repr_task\<close> is \<open>repr(self.task)\<close> and \<open>build\<close> is
  \<open>self.task.build\<close>, which returns a value or raises.
\<close>

definition TaskBuildWrapper_call ::
  "string \<Rightarrow> ('k \<Rightarrow> raised + py_value) \<Rightarrow> 'k \<Rightarrow> raised + result" where
  "TaskBuildWrapper_call repr_task build kwargs =
     (case build kwargs of
        Inr v \<Rightarrow> Inr (Returned v)
      | Inl (ExceptionInstance tb) \<Rightarrow> Inr (ExceptionResult repr_task tb)
      | Inl (BaseExceptionOnly tb) \<Rightarrow> Inl (BaseExceptionOnly tb))"

subsection \<open>The closures of \<open>Parallel.__call__\<close>\<close>

text \<open>
  The statements before the loop: \<open>done\<close> receives, in the DAG's order, the tasks whose
  status is \<open>Executed\<close> or \<open>Skipped\<close>.
\<close>

definition initial :: "name list \<Rightarrow> (name \<Rightarrow> TaskStatus) \<Rightarrow> nat \<Rightarrow> state" where
  "initial dag st i0 =
     \<lparr> exec_status = st,
       done_list = filter (\<lambda>n. st n \<in> {Executed, Skipped}) dag,
       started = [],
       future_mapping = [],
       self_i = i0 \<rparr>"

text \<open>
  \<open>callback\<close>: \<open>res\<close> gives what \<open>future.result()\<close> does for each future. A future
  that is not a key of \<open>future_mapping\<close> raises \<open>KeyError\<close> at the first statement; an
  exception of \<open>future.result()\<close> other than \<open>BrokenProcessPool\<close>, or one of the
  setter, leaves the callback before the task is appended. Each of the three assignments
  to \<open>task.exec_status\<close> goes through the setter.
\<close>

definition callback :: "setter \<Rightarrow> (future \<Rightarrow> outcome) \<Rightarrow> future \<Rightarrow> state \<Rightarrow> error + state" where
  "callback setter res fut s =
     (case map_of (future_mapping s) fut of
        None \<Rightarrow> Inl KeyError
      | Some task \<Rightarrow>
          (case (case res fut of
                   Raises BrokenProcessPoolRaised \<Rightarrow>
                     setter task (StatusValue BrokenProcessPool) (exec_status s)
                 | Raises (OtherRaised e) \<Rightarrow> Inl (Propagated (OtherRaised e))
                 | Returns (ExceptionResult ts tb) \<Rightarrow>
                     setter task (StatusValue Errored) (exec_status s)
                 | Returns (Returned v) \<Rightarrow>
                     setter task v (exec_status s)) of
             Inl e \<Rightarrow> Inl e
           | Inr st' \<Rightarrow> Inr (s\<lparr>exec_status := st', done_list := done_list s @ [task]\<rparr>)))"

text \<open>
  The first loop of \<open>next_task\<close>, over \<open>dag.values()\<close>: an \<open>Aborted\<close> task is
  appended to \<open>done\<close>, a \<open>BrokenProcessPool\<close> task raises \<open>StopIteration\<close>. The
  result is whether the loop raised, and \<open>done\<close> as the loop leaves it.
\<close>

fun scan_aborted :: "(name \<Rightarrow> TaskStatus) \<Rightarrow> name list \<Rightarrow> name list \<Rightarrow> bool \<times> name list" where
  "scan_aborted st [] dn = (False, dn)"
| "scan_aborted st (task # rest) dn =
     (if st task \<in> {Aborted} then scan_aborted st rest (dn @ [task])
      else if st task = BrokenProcessPool then (True, dn)
      else scan_aborted st rest dn)"

text \<open>
  The condition of the second loop of \<open>next_task\<close>: the task waits for execution and is
  not in \<open>started\<close>.
\<close>

definition ready :: "state \<Rightarrow> name \<Rightarrow> bool" where
  "ready s task = (exec_status s task = WaitingExecution \<and> task \<notin> set (started s))"

text \<open>
  \<open>next_task\<close>: it raises \<open>StopIteration\<close>, returns a task, or returns \<open>None\<close> after
  incrementing \<open>self._i\<close>. \<open>set_all\<close> is \<open>set(dag)\<close>, the names of the DAG.
\<close>

definition next_task :: "name list \<Rightarrow> state \<Rightarrow> (stop + name option) \<times> state" where
  "next_task dag s =
     (case scan_aborted (exec_status s) dag (done_list s) of
        (True, dn) \<Rightarrow> (Inl StopIteration, s\<lparr>done_list := dn\<rparr>)
      | (False, dn) \<Rightarrow>
          (case find (ready s) dag of
             Some task \<Rightarrow> (Inr (Some task), s\<lparr>done_list := dn\<rparr>)
           | None \<Rightarrow>
               (if set dn = set dag
                then (Inl StopIteration, s\<lparr>done_list := dn\<rparr>)
                else (Inr None, s\<lparr>done_list := dn, self_i := self_i s + 1\<rparr>))))"

subsection \<open>The loop\<close>

text \<open>
  \<open>pool.submit\<close> gives a future that is not yet a key of \<open>future_mapping\<close>: here the
  least number above all keys.
\<close>

definition new_future :: "(future \<times> name) list \<Rightarrow> future" where
  "new_future fm = fold max (map (\<lambda>(f, t). Suc f) fm) 0"

text \<open>
  The last two statements of a dispatch: the task is appended to \<open>started\<close> and the
  future is entered in \<open>future_mapping\<close>.
\<close>

definition record_dispatch :: "future \<Rightarrow> name \<Rightarrow> state \<Rightarrow> state" where
  "record_dispatch fut task s =
     s\<lparr>started := started s @ [task],
       future_mapping := future_mapping s @ [(fut, task)]\<rparr>"

text \<open>
  The body of the \<open>else\<close> branch for a task when \<open>pool.submit\<close> returns and no callback
  of the new future runs before the future is entered in \<open>future_mapping\<close>.
\<close>

definition submit :: "name \<Rightarrow> state \<Rightarrow> state" where
  "submit task s = record_dispatch (new_future (future_mapping s)) task s"

text \<open>
  The main thread and the pool's callbacks interleave. A run is a sequence of events.
  \<open>Fire fut\<close> is the pool calling \<open>callback\<close> for a future; an exception that leaves a
  callback is logged and dropped by \<open>concurrent.futures\<close>, so the state stays as it was.
  The other three events are one iteration of the \<open>while True\<close> loop each, and differ in
  how the dispatch of a selected task goes:
  \<^item> \<open>Poll\<close>: \<open>pool.submit\<close> returns and the dispatch is recorded undisturbed;
  \<^item> \<open>PollCallbackEarly\<close>: \<open>pool.submit\<close> returns and the callback of the new future
    runs after \<open>add_done_callback\<close> and before the future is entered in
    \<open>future_mapping\<close> (the future is done already, or completes in between);
  \<^item> \<open>PollSubmitRaises\<close>: \<open>pool.submit\<close> raises \<open>BrokenProcessPool\<close>, which leaves the
    loop and the call.

  The control part of a configuration tells whether the loop is running, was left by
  \<open>break\<close>, or was left by an exception. Once the loop is left an iteration does nothing,
  while callbacks of futures still in flight may fire as the pool shuts down.
\<close>

datatype control = InLoop | LeftLoop | RaisedInLoop error

datatype event = Poll | PollCallbackEarly | PollSubmitRaises | Fire future

fun dispatch :: "setter \<Rightarrow> (future \<Rightarrow> outcome) \<Rightarrow> event \<Rightarrow> name \<Rightarrow> state \<Rightarrow> control \<times> state" where
  "dispatch setter res PollSubmitRaises task s = (RaisedInLoop SubmitBrokenProcessPool, s)"
| "dispatch setter res PollCallbackEarly task s =
     (InLoop,
      record_dispatch (new_future (future_mapping s)) task
        (case callback setter res (new_future (future_mapping s)) s of
           Inl e \<Rightarrow> s
         | Inr s' \<Rightarrow> s'))"
| "dispatch setter res e task s = (InLoop, submit task s)"

fun step ::
  "setter \<Rightarrow> name list \<Rightarrow> (future \<Rightarrow> outcome) \<Rightarrow> control \<times> state \<Rightarrow> event \<Rightarrow> control \<times> state" where
  "step setter dag res (c, s) (Fire fut) =
     (case callback setter res fut s of Inl e \<Rightarrow> (c, s) | Inr s' \<Rightarrow> (c, s'))"
| "step setter dag res (InLoop, s) e =
     (case next_task dag s of
        (Inl StopIteration, s') \<Rightarrow> (LeftLoop, s')
      | (Inr None, s') \<Rightarrow> (InLoop, s')
      | (Inr (Some task), s') \<Rightarrow> dispatch setter res e task s')"
| "step setter dag res (c, s) e = (c, s)"

definition run ::
  "setter \<Rightarrow> name list \<Rightarrow> (future \<Rightarrow> outcome) \<Rightarrow> event list \<Rightarrow> control \<times> state \<Rightarrow> control \<times> state" where
  "run setter dag res es c = foldl (step setter dag res) c es"

subsection \<open>After the loop\<close>

text \<open>
  \<open>get_future_result\<close>: a \<open>BrokenProcessPool\<close> of \<open>future.result()\<close> is raised again
  with the task \<open>future_mapping[future]\<close> in its message; any other exception passes
  through.
\<close>

definition get_future_result ::
  "(future \<Rightarrow> outcome) \<Rightarrow> future \<Rightarrow> (future \<times> name) list \<Rightarrow> error + result" where
  "get_future_result res fut fm =
     (case res fut of
        Returns r \<Rightarrow> Inr r
      | Raises BrokenProcessPoolRaised \<Rightarrow>
          (case map_of fm fut of
             None \<Rightarrow> Inl KeyError
           | Some task \<Rightarrow> Inl (BrokenProcessPoolError task))
      | Raises (OtherRaised e) \<Rightarrow> Inl (Propagated (OtherRaised e)))"

text \<open>
  The list comprehension over \<open>future_mapping.items()\<close>: for each future the condition
  calls \<open>get_future_result\<close>, and for an \<open>ExceptionResult\<close> the element expression
  calls it again. The first exception ends the comprehension.
\<close>

fun collect ::
  "(future \<Rightarrow> outcome) \<Rightarrow> (future \<times> name) list \<Rightarrow> (future \<times> name) list \<Rightarrow> error + result list" where
  "collect res fm [] = Inr []"
| "collect res fm ((f, t) # items) =
     (case get_future_result res f fm of
        Inl e \<Rightarrow> Inl e
      | Inr (Returned v) \<Rightarrow> collect res fm items
      | Inr (ExceptionResult ts tb) \<Rightarrow>
          (case get_future_result res f fm of
             Inl e \<Rightarrow> Inl e
           | Inr r \<Rightarrow>
               (case collect res fm items of
                  Inl e \<Rightarrow> Inl e
                | Inr rs \<Rightarrow> Inr (r # rs))))"

text \<open>
  Modelled from the spec: the truth value of an \<open>ExceptionCollector\<close>, a class of
  \<open>ploomber.ExceptionCollector\<close> that is only imported here. By the specification the
  run fails when the collected sequence is not empty.
\<close>

definition ExceptionCollector_bool :: "result list \<Rightarrow> bool" where
  "ExceptionCollector_bool exps = (exps \<noteq> [])"

text \<open>The statements after the \<open>with\<close> block: \<open>DAGBuildError\<close> when \<open>exps\<close> is true.\<close>

definition aggregate :: "(future \<Rightarrow> outcome) \<Rightarrow> (future \<times> name) list \<Rightarrow> error + unit" where
  "aggregate res fm =
     (case collect res fm fm of
        Inl e \<Rightarrow> Inl e
      | Inr exps \<Rightarrow> (if ExceptionCollector_bool exps then Inl (DAGBuildError exps) else Inr ()))"

text \<open>
  \<open>Parallel.__call__\<close> under a sequence of events. Its first statement calls the base
  class, \<open>super().__call__(dag)\<close>; \<open>Executor_call\<close>, a parameter, tells for a DAG and its
  statuses whether that call raises or returns. The result is \<open>Inl\<close> for an exception of
  the base class or of \<open>pool.submit\<close>, which leaves the call before the statements after
  the loop; \<open>Inr None\<close> when the loop has not been left within the sequence; and otherwise
  what the statements after the loop raise or return, with the final state.
\<close>

definition Parallel_call ::
  "(name list \<Rightarrow> (name \<Rightarrow> TaskStatus) \<Rightarrow> error + unit) \<Rightarrow> setter \<Rightarrow>
   name list \<Rightarrow> (name \<Rightarrow> TaskStatus) \<Rightarrow> nat \<Rightarrow> (future \<Rightarrow> outcome) \<Rightarrow> event list
     \<Rightarrow> error + ((error + unit) \<times> state) option" where
  "Parallel_call Executor_call setter dag st i0 res es =
     (case Executor_call dag st of
        Inl e \<Rightarrow> Inl e
      | Inr u \<Rightarrow>
          (case run setter dag res es (InLoop, initial dag st i0) of
             (InLoop, s) \<Rightarrow> Inr None
           | (RaisedInLoop e, s) \<Rightarrow> Inl e
           | (LeftLoop, s) \<Rightarrow> Inr (Some (aggregate res (future_mapping s), s))))"

subsection \<open>What the futures of a run hold\<close>

text \<open>
  Two notions used to state what the run reports, read off a result function and the
  items of \<open>future_mapping\<close>: the exception results of the futures, in the order of
  dispatch, and whether every future returns a value.
\<close>

definition exception_results :: "(future \<Rightarrow> outcome) \<Rightarrow> (future \<times> name) list \<Rightarrow> result list" where
  "exception_results res items =
     concat (map (\<lambda>(f, t). case res f of
                               Returns (ExceptionResult ts tb) \<Rightarrow> [ExceptionResult ts tb]
                             | _ \<Rightarrow> []) items)"

definition no_raise :: "(future \<Rightarrow> outcome) \<Rightarrow> (future \<times> name) list \<Rightarrow> bool" where
  "no_raise res items =
     list_all (\<lambda>(f, t). case res f of Returns r \<Rightarrow> True | Raises x \<Rightarrow> False) items"

subsection \<open>Task models for the examples\<close>

text \<open>
  A task model for a DAG without dependencies between its tasks: the setter stores a
  status for the task, changes no other task, and refuses a value that is not a status.
\<close>

definition assign :: setter where
  "assign task v st =
     (case v of
        StatusValue x \<Rightarrow> Inr (st(task := x))
      | OtherValue d \<Rightarrow> Inl (Raised ''ValueError''))"

text \<open>
  Modelled from the spec: the setter of \<open>exec_status\<close> in the task class, which is not
  under the sources, for a DAG with dependencies, as far as the specification's contract
  of the DAG says what a failure does: once an upstream dependency of a task is
  \<open>Errored\<close>, \<open>Aborted\<close> or \<open>BrokenProcessPool\<close>, the task's status becomes
  \<open>Aborted\<close>. \<open>upstream\<close> gives the upstream dependencies of a task; the tasks are
  visited in the order of the DAG.
\<close>

definition assign_and_abort_dependents :: "(name \<Rightarrow> name list) \<Rightarrow> name list \<Rightarrow> setter" where
  "assign_and_abort_dependents upstream dag task v st =
     (case v of
        StatusValue x \<Rightarrow>
          Inr (fold (\<lambda>d cur. if list_ex (\<lambda>u. cur u \<in> {Errored, Aborted, BrokenProcessPool}) (upstream d)
                              then cur(d := Aborted) else cur)
                    dag (st(task := x)))
      | OtherValue d \<Rightarrow> Inl (Raised ''ValueError''))"

section \<open>Properties\<close>

subsection \<open>The two loops of \<open>next_task\<close>\<close>

lemma scan_aborted_eq:
  "scan_aborted st dag dn =
     (BrokenProcessPool \<in> st ` set dag,
      dn @ filter (\<lambda>t. st t = Aborted) (takeWhile (\<lambda>t. st t \<noteq> BrokenProcessPool) dag))"
  by (induction dag arbitrary: dn) auto

lemma takeWhile_no_broken:
  "BrokenProcessPool \<notin> st ` set dag \<Longrightarrow> takeWhile (\<lambda>t. st t \<noteq> BrokenProcessPool) dag = dag"
  by (induction dag) auto

lemma find_Some_split:
  "find P xs = Some x \<longleftrightarrow> (\<exists>pre post. xs = pre @ x # post \<and> P x \<and> (\<forall>u\<in>set pre. \<not> P u))"
proof (induction xs)
  case Nil
  then show ?case by simp
next
  case (Cons a xs)
  show ?case
  proof (cases "P a")
    case True
    have "(\<exists>pre post. a # xs = pre @ x # post \<and> P x \<and> (\<forall>u\<in>set pre. \<not> P u)) \<longleftrightarrow> a = x"
    proof
      assume "\<exists>pre post. a # xs = pre @ x # post \<and> P x \<and> (\<forall>u\<in>set pre. \<not> P u)"
      then obtain pre post where d: "a # xs = pre @ x # post" "\<forall>u\<in>set pre. \<not> P u" by blast
      show "a = x"
      proof (cases pre)
        case Nil
        with d show ?thesis by simp
      next
        case (Cons b pre')
        with d True show ?thesis by simp
      qed
    next
      assume "a = x"
      with True have "a # xs = [] @ x # xs \<and> P x \<and> (\<forall>u\<in>set []. \<not> P u)" by simp
      then show "\<exists>pre post. a # xs = pre @ x # post \<and> P x \<and> (\<forall>u\<in>set pre. \<not> P u)" by blast
    qed
    with True show ?thesis by simp
  next
    case False
    have "(\<exists>pre post. a # xs = pre @ x # post \<and> P x \<and> (\<forall>u\<in>set pre. \<not> P u)) \<longleftrightarrow>
          (\<exists>pre post. xs = pre @ x # post \<and> P x \<and> (\<forall>u\<in>set pre. \<not> P u))"
    proof
      assume "\<exists>pre post. a # xs = pre @ x # post \<and> P x \<and> (\<forall>u\<in>set pre. \<not> P u)"
      then obtain pre post where d: "a # xs = pre @ x # post" "P x" "\<forall>u\<in>set pre. \<not> P u" by blast
      show "\<exists>pre post. xs = pre @ x # post \<and> P x \<and> (\<forall>u\<in>set pre. \<not> P u)"
      proof (cases pre)
        case Nil
        with d False show ?thesis by simp
      next
        case (Cons b pre')
        with d have "xs = pre' @ x # post \<and> P x \<and> (\<forall>u\<in>set pre'. \<not> P u)" by simp
        then show ?thesis by blast
      qed
    next
      assume "\<exists>pre post. xs = pre @ x # post \<and> P x \<and> (\<forall>u\<in>set pre. \<not> P u)"
      then obtain pre post where d: "xs = pre @ x # post" "P x" "\<forall>u\<in>set pre. \<not> P u" by blast
      with False have "a # xs = (a # pre) @ x # post \<and> P x \<and> (\<forall>u\<in>set (a # pre). \<not> P u)" by simp
      then show "\<exists>pre post. a # xs = pre @ x # post \<and> P x \<and> (\<forall>u\<in>set pre. \<not> P u)" by blast
    qed
    with False Cons.IH show ?thesis by simp
  qed
qed

lemma next_task_result:
  "fst (next_task dag s) =
     (if BrokenProcessPool \<in> exec_status s ` set dag then Inl StopIteration
      else (case find (ready s) dag of
              Some task \<Rightarrow> Inr (Some task)
            | None \<Rightarrow>
                if set (done_list s) \<union> {t \<in> set dag. exec_status s t = Aborted} = set dag
                then Inl StopIteration else Inr None))"
  by (auto simp: next_task_def scan_aborted_eq takeWhile_no_broken split: option.splits)

lemma next_task_state:
  "snd (next_task dag s) =
     s\<lparr>done_list := done_list s @ filter (\<lambda>t. exec_status s t = Aborted)
                                      (takeWhile (\<lambda>t. exec_status s t \<noteq> BrokenProcessPool) dag),
       self_i := (if fst (next_task dag s) = Inr None then self_i s + 1 else self_i s)\<rparr>"
  by (cases "BrokenProcessPool \<in> exec_status s ` set dag")
     (auto simp: next_task_def scan_aborted_eq split: option.splits)

lemma next_task_frame:
  "exec_status (snd (next_task dag s)) = exec_status s"
  "started (snd (next_task dag s)) = started s"
  "future_mapping (snd (next_task dag s)) = future_mapping s"
  by (simp_all add: next_task_state)

lemma next_task_Some:
  assumes "fst (next_task dag s) = Inr (Some t)"
  shows "exec_status s t = WaitingExecution" and "t \<notin> set (started s)" and "t \<in> set dag"
    and "BrokenProcessPool \<notin> exec_status s ` set dag"
  using assms
  by (auto simp: next_task_result find_Some_iff ready_def split: if_splits option.splits)

subsection \<open>The callback and the steps of a run\<close>

lemma fold_max_upper: "m \<le> fold max xs (m::nat) \<and> (\<forall>x\<in>set xs. x \<le> fold max xs m)"
proof (induction xs arbitrary: m)
  case Nil
  then show ?case by simp
next
  case (Cons a xs)
  from Cons.IH[of "max a m"] show ?case by auto
qed

lemma new_future_fresh: "map_of fm (new_future fm) = None"
proof -
  have "f < new_future fm" if "(f, t) \<in> set fm" for f t
  proof -
    from that have "Suc f \<in> set (map (\<lambda>(f, t). Suc f) fm)" by force
    with fold_max_upper[of 0 "map (\<lambda>(f, t). Suc f) fm"] have "Suc f \<le> new_future fm"
      unfolding new_future_def by blast
    then show ?thesis by simp
  qed
  then have "new_future fm \<notin> fst ` set fm" by force
  then show ?thesis by (simp add: map_of_eq_None_iff)
qed

lemma callback_new_future:
  "callback setter res (new_future (future_mapping s)) s = Inl KeyError"
  by (simp add: callback_def new_future_fresh)

lemma callback_frame:
  assumes "callback setter res fut s = Inr s'"
  shows "started s' = started s" and "future_mapping s' = future_mapping s"
    and "self_i s' = self_i s"
    and "\<exists>t v. map_of (future_mapping s) fut = Some t \<and>
               setter t v (exec_status s) = Inr (exec_status s') \<and>
               done_list s' = done_list s @ [t]"
  using assms
  by (auto simp: callback_def
           split: option.splits outcome.splits future_exception.splits result.splits sum.splits)

lemma dispatch_early_is_submit:
  "dispatch setter res PollCallbackEarly task s = (InLoop, submit task s)"
  by (simp add: callback_new_future submit_def)

lemma step_cases:
  obtains (same) "started (snd (step setter dag res (c, s) e)) = started s"
      "future_mapping (snd (step setter dag res (c, s) e)) = future_mapping s"
      "exec_status (snd (step setter dag res (c, s) e)) = exec_status s \<or>
       (\<exists>t v. t \<in> snd ` set (future_mapping s) \<and>
              setter t v (exec_status s) = Inr (exec_status (snd (step setter dag res (c, s) e))))"
      "c \<noteq> InLoop \<longrightarrow> fst (step setter dag res (c, s) e) = c"
  | (submitted) t where "e \<noteq> PollSubmitRaises" "c = InLoop" "fst (next_task dag s) = Inr (Some t)"
      "started (snd (step setter dag res (c, s) e)) = started s @ [t]"
      "future_mapping (snd (step setter dag res (c, s) e)) =
         future_mapping s @ [(new_future (future_mapping s), t)]"
      "exec_status (snd (step setter dag res (c, s) e)) = exec_status s"
proof (cases e)
  case (Fire fut)
  show ?thesis
  proof (cases "callback setter res fut s")
    case (Inl a)
    with Fire show ?thesis by (intro same) simp_all
  next
    case (Inr s')
    from callback_frame(4)[OF Inr] obtain t v where
      tv: "map_of (future_mapping s) fut = Some t" "setter t v (exec_status s) = Inr (exec_status s')"
      by blast
    from tv(1) have "t \<in> snd ` set (future_mapping s)"
      by (metis map_of_SomeD image_eqI snd_conv)
    with Fire Inr callback_frame(1,2)[OF Inr] tv(2) show ?thesis
      by (intro same) auto
  qed
next
  case Poll
  show ?thesis
  proof (cases "c = InLoop")
    case False
    with Poll show ?thesis by (intro same) (cases c; simp)+
  next
    case True
    obtain r s' where nt: "next_task dag s = (r, s')" by (cases "next_task dag s")
    have fr: "exec_status s' = exec_status s" "started s' = started s" "future_mapping s' = future_mapping s"
      using next_task_frame[of dag s] nt by simp_all
    show ?thesis
    proof (cases r)
      case (Inl a)
      with Poll True nt fr show ?thesis by (intro same) (simp_all split: stop.splits)
    next
      case (Inr o1)
      show ?thesis
      proof (cases o1)
        case None
        with Inr Poll True nt fr show ?thesis by (intro same) simp_all
      next
        case (Some t)
        with Inr Poll True nt fr show ?thesis
          by (intro submitted[of t]) (simp_all add: submit_def record_dispatch_def)
      qed
    qed
  qed
next
  case PollCallbackEarly
  show ?thesis
  proof (cases "c = InLoop")
    case False
    with PollCallbackEarly show ?thesis by (intro same) (cases c; simp)+
  next
    case True
    obtain r s' where nt: "next_task dag s = (r, s')" by (cases "next_task dag s")
    have fr: "exec_status s' = exec_status s" "started s' = started s" "future_mapping s' = future_mapping s"
      using next_task_frame[of dag s] nt by simp_all
    show ?thesis
    proof (cases r)
      case (Inl a)
      with PollCallbackEarly True nt fr show ?thesis by (intro same) (simp_all split: stop.splits)
    next
      case (Inr o1)
      show ?thesis
      proof (cases o1)
        case None
        with Inr PollCallbackEarly True nt fr show ?thesis by (intro same) simp_all
      next
        case (Some t)
        with Inr PollCallbackEarly True nt fr show ?thesis
          by (intro submitted[of t])
             (simp_all add: callback_new_future submit_def record_dispatch_def)
      qed
    qed
  qed
next
  case PollSubmitRaises
  show ?thesis
  proof (cases "c = InLoop")
    case False
    with PollSubmitRaises show ?thesis by (intro same) (cases c; simp)+
  next
    case True
    obtain r s' where nt: "next_task dag s = (r, s')" by (cases "next_task dag s")
    have fr: "exec_status s' = exec_status s" "started s' = started s" "future_mapping s' = future_mapping s"
      using next_task_frame[of dag s] nt by simp_all
    show ?thesis
    proof (cases r)
      case (Inl a)
      with PollSubmitRaises True nt fr show ?thesis by (intro same) (simp_all split: stop.splits)
    next
      case (Inr o1)
      with PollSubmitRaises True nt fr show ?thesis
        by (intro same) (cases o1; simp)+
    qed
  qed
qed

lemma run_Nil: "run setter dag res [] c = c"
  by (simp add: run_def)

lemma run_Cons: "run setter dag res (e # es) c = run setter dag res es (step setter dag res c e)"
  by (simp add: run_def)

lemma step_distinct:
  assumes "distinct (started s)"
  shows "distinct (started (snd (step setter dag res (c, s) e)))"
proof (cases rule: step_cases[where setter=setter and dag=dag and res=res and c=c and s=s and e=e])
  case same
  with assms show ?thesis by simp
next
  case (submitted t)
  with assms next_task_Some(2)[OF submitted(3)] show ?thesis by simp
qed

lemma run_distinct:
  "distinct (started s) \<Longrightarrow> distinct (started (snd (run setter dag res es (c, s))))"
proof (induction es arbitrary: c s)
  case Nil
  then show ?case by (simp add: run_Nil)
next
  case (Cons e es)
  obtain c' s' where st: "step setter dag res (c, s) e = (c', s')"
    by (cases "step setter dag res (c, s) e")
  from step_distinct[OF Cons.prems, where setter=setter and dag=dag and res=res and c=c and e=e] st
  have "distinct (started s')" by simp
  from Cons.IH[OF this] st show ?case by (simp add: run_Cons)
qed

lemma step_mapping:
  assumes "map snd (future_mapping s) = started s"
  shows "map snd (future_mapping (snd (step setter dag res (c, s) e))) =
         started (snd (step setter dag res (c, s) e))"
  by (rule step_cases[where setter=setter and dag=dag and res=res and c=c and s=s and e=e])
     (use assms in simp_all)

lemma run_mapping:
  "map snd (future_mapping s) = started s \<Longrightarrow>
   map snd (future_mapping (snd (run setter dag res es (c, s)))) =
     started (snd (run setter dag res es (c, s)))"
proof (induction es arbitrary: c s)
  case Nil
  then show ?case by (simp add: run_Nil)
next
  case (Cons e es)
  obtain c' s' where st: "step setter dag res (c, s) e = (c', s')"
    by (cases "step setter dag res (c, s) e")
  from step_mapping[OF Cons.prems, where setter=setter and dag=dag and res=res and c=c and e=e] st
  have "map snd (future_mapping s') = started s'" by simp
  from Cons.IH[OF this] st show ?case by (simp add: run_Cons)
qed

lemma step_started_mono:
  "set (started s) \<subseteq> set (started (snd (step setter dag res (c, s) e)))"
  by (rule step_cases[where setter=setter and dag=dag and res=res and c=c and s=s and e=e]) auto

lemma run_started_mono:
  "set (started s) \<subseteq> set (started (snd (run setter dag res es (c, s))))"
proof (induction es arbitrary: c s)
  case Nil
  then show ?case by (simp add: run_Nil)
next
  case (Cons e es)
  obtain c' s' where st: "step setter dag res (c, s) e = (c', s')"
    by (cases "step setter dag res (c, s) e")
  from step_started_mono[where setter=setter and dag=dag and res=res and c=c and s=s and e=e] st
  have "set (started s) \<subseteq> set (started s')" by simp
  with Cons.IH[of s' c'] st show ?case by (auto simp: run_Cons)
qed

lemma step_unstarted:
  assumes "snd ` set (future_mapping s) \<subseteq> set (started s)"
    and "\<forall>t v st st'. t \<noteq> n \<longrightarrow> setter t v st = Inr st' \<longrightarrow> st' n = st n"
  shows "snd ` set (future_mapping (snd (step setter dag res (c, s) e))) \<subseteq>
           set (started (snd (step setter dag res (c, s) e)))"
    and "set (started s) \<subseteq> set (started (snd (step setter dag res (c, s) e)))"
    and "n \<notin> set (started (snd (step setter dag res (c, s) e))) \<Longrightarrow>
           exec_status (snd (step setter dag res (c, s) e)) n = exec_status s n"
proof -
  show "snd ` set (future_mapping (snd (step setter dag res (c, s) e))) \<subseteq>
           set (started (snd (step setter dag res (c, s) e)))"
    by (rule step_cases[where setter=setter and dag=dag and res=res and c=c and s=s and e=e])
       (use assms(1) in auto)
  show "set (started s) \<subseteq> set (started (snd (step setter dag res (c, s) e)))"
    by (rule step_cases[where setter=setter and dag=dag and res=res and c=c and s=s and e=e])
       (use assms(1) in auto)
  show "exec_status (snd (step setter dag res (c, s) e)) n = exec_status s n"
    if n: "n \<notin> set (started (snd (step setter dag res (c, s) e)))"
  proof (cases rule: step_cases[where setter=setter and dag=dag and res=res and c=c and s=s and e=e])
    case same
    from same(3) show ?thesis
    proof
      assume "exec_status (snd (step setter dag res (c, s) e)) = exec_status s"
      then show ?thesis by simp
    next
      assume "\<exists>t v. t \<in> snd ` set (future_mapping s) \<and>
              setter t v (exec_status s) = Inr (exec_status (snd (step setter dag res (c, s) e)))"
      then obtain t v where t: "t \<in> snd ` set (future_mapping s)"
        and sv: "setter t v (exec_status s) = Inr (exec_status (snd (step setter dag res (c, s) e)))"
        by blast
      from t assms(1) same(1) n have "t \<noteq> n" by auto
      with assms(2) sv show ?thesis by blast
    qed
  next
    case (submitted t)
    then show ?thesis by simp
  qed
qed

lemma run_unstarted:
  assumes "snd ` set (future_mapping s) \<subseteq> set (started s)"
    and "\<forall>t v st st'. t \<noteq> n \<longrightarrow> setter t v st = Inr st' \<longrightarrow> st' n = st n"
  shows "n \<notin> set (started (snd (run setter dag res es (c, s)))) \<longrightarrow>
              exec_status (snd (run setter dag res es (c, s))) n = exec_status s n"
  using assms(1)
proof (induction es arbitrary: c s)
  case Nil
  then show ?case by (simp add: run_Nil)
next
  case (Cons e es)
  obtain c' s' where st: "step setter dag res (c, s) e = (c', s')"
    by (cases "step setter dag res (c, s) e")
  from step_unstarted[OF Cons.prems assms(2), where dag=dag and res=res and c=c and e=e] st
  have a: "snd ` set (future_mapping s') \<subseteq> set (started s')"
    and b: "set (started s) \<subseteq> set (started s')"
    and c: "n \<notin> set (started s') \<Longrightarrow> exec_status s' n = exec_status s n"
    by simp_all
  have mono: "set (started s') \<subseteq> set (started (snd (run setter dag res es (c', s'))))"
    by (rule run_started_mono)
  from Cons.IH[OF a, where c=c'] c mono st show ?case
    by (simp add: run_Cons) blast
qed

lemma step_stopped:
  assumes "c \<noteq> InLoop"
  shows "fst (step setter dag res (c, s) e) = c"
    and "started (snd (step setter dag res (c, s) e)) = started s"
    and "future_mapping (snd (step setter dag res (c, s) e)) = future_mapping s"
  by (rule step_cases[where setter=setter and dag=dag and res=res and c=c and s=s and e=e];
      use assms in simp)+

lemma run_stopped:
  assumes "c \<noteq> InLoop"
  shows "fst (run setter dag res es (c, s)) = c \<and>
   started (snd (run setter dag res es (c, s))) = started s \<and>
   future_mapping (snd (run setter dag res es (c, s))) = future_mapping s"
proof (induction es arbitrary: s)
  case Nil
  then show ?case by (simp add: run_Nil)
next
  case (Cons e es)
  obtain c' s' where st: "step setter dag res (c, s) e = (c', s')"
    by (cases "step setter dag res (c, s) e")
  with step_stopped[OF assms, where setter=setter and dag=dag and res=res and s=s and e=e] Cons.IH[where s=s']
  show ?case by (simp add: run_Cons)
qed

subsection \<open>The exceptions collected after the loop\<close>

lemma collect_no_raise:
  "no_raise res items \<Longrightarrow> collect res fm items = Inr (exception_results res items)"
  by (induction items)
     (auto simp: no_raise_def exception_results_def get_future_result_def
           split: outcome.splits result.splits)

lemma collect_first_raise:
  "no_raise res pre \<Longrightarrow> get_future_result res f fm = Inl e \<Longrightarrow>
   collect res fm (pre @ (f, t) # post) = Inl e"
proof (induction pre)
  case Nil
  then show ?case by simp
next
  case (Cons a pre)
  obtain g u where a: "a = (g, u)" by (cases a)
  from Cons.prems(1) a obtain r where r: "res g = Returns r" and nr: "no_raise res pre"
    by (auto simp: no_raise_def split: outcome.splits)
  from r have "get_future_result res g fm = Inr r" by (simp add: get_future_result_def)
  with Cons.IH[OF nr Cons.prems(2)] a show ?case
    by (cases r) simp_all
qed

lemma raise_split:
  "\<not> no_raise res items \<Longrightarrow>
   \<exists>pre f t post x. items = pre @ (f, t) # post \<and> no_raise res pre \<and> res f = Raises x"
proof (induction items)
  case Nil
  then show ?case by (simp add: no_raise_def)
next
  case (Cons a items)
  obtain g u where a: "a = (g, u)" by (cases a)
  show ?case
  proof (cases "res g")
    case (Raises x)
    with a have "a # items = [] @ (g, u) # items \<and> no_raise res [] \<and> res g = Raises x"
      by (simp add: no_raise_def)
    then show ?thesis by blast
  next
    case (Returns r)
    with Cons.prems a have "\<not> no_raise res items" by (simp add: no_raise_def)
    from Cons.IH[OF this] obtain pre f t post x where
      "items = pre @ (f, t) # post" "no_raise res pre" "res f = Raises x" by blast
    with Returns a have "a # items = (a # pre) @ (f, t) # post \<and> no_raise res (a # pre) \<and> res f = Raises x"
      by (simp add: no_raise_def)
    then show ?thesis by blast
  qed
qed

lemma get_future_result_raise:
  "res f = Raises x \<Longrightarrow> map_of fm f = Some u \<Longrightarrow>
   get_future_result res f fm =
     Inl (case x of BrokenProcessPoolRaised \<Rightarrow> BrokenProcessPoolError u
                  | OtherRaised e \<Rightarrow> Propagated (OtherRaised e))"
  by (simp add: get_future_result_def split: future_exception.splits)

lemma map_of_mid: "\<exists>u. map_of (pre @ (f, t) # post) f = Some u"
  by (metis in_set_conv_decomp map_of_eq_None_iff not_Some_eq image_eqI fst_conv)

lemma aggregate_no_raise:
  "no_raise res fm \<Longrightarrow>
   aggregate res fm = (if exception_results res fm = [] then Inr ()
                        else Inl (DAGBuildError (exception_results res fm)))"
  by (simp add: aggregate_def collect_no_raise ExceptionCollector_bool_def)

lemma aggregate_raise:
  assumes "\<not> no_raise res fm"
  shows "\<exists>pre f t post x u. fm = pre @ (f, t) # post \<and> no_raise res pre \<and> res f = Raises x \<and>
           map_of fm f = Some u \<and>
           aggregate res fm = Inl (case x of BrokenProcessPoolRaised \<Rightarrow> BrokenProcessPoolError u
                                           | OtherRaised e \<Rightarrow> Propagated (OtherRaised e))"
proof -
  from raise_split[OF assms] obtain pre f t post x where
    d: "fm = pre @ (f, t) # post" "no_raise res pre" "res f = Raises x" by blast
  from map_of_mid[of pre f t post] d(1) obtain u where u: "map_of fm f = Some u" by blast
  have "collect res fm fm = Inl (case x of BrokenProcessPoolRaised \<Rightarrow> BrokenProcessPoolError u
                                           | OtherRaised e \<Rightarrow> Propagated (OtherRaised e))"
  proof -
    have g: "get_future_result res f fm =
               Inl (case x of BrokenProcessPoolRaised \<Rightarrow> BrokenProcessPoolError u
                            | OtherRaised e \<Rightarrow> Propagated (OtherRaised e))"
      using d(3) u by (rule get_future_result_raise[where res=res and f=f and x=x and fm=fm and u=u])
    show ?thesis
      using collect_first_raise[OF d(2) g, where t=t and post=post] d(1) by simp
  qed
  then have "aggregate res fm = Inl (case x of BrokenProcessPoolRaised \<Rightarrow> BrokenProcessPoolError u
                                           | OtherRaised e \<Rightarrow> Propagated (OtherRaised e))"
    by (simp add: aggregate_def split: future_exception.splits)
  with d u show ?thesis by blast
qed

subsection \<open>Runs that start with nothing to do, and repeated polls\<close>





lemma ready_frame:
  "ready (s\<lparr>done_list := d\<rparr>) = ready s"
  "ready (s\<lparr>self_i := i\<rparr>) = ready s"
  by (simp_all add: fun_eq_iff ready_def)

lemma next_task_done_set:
  "set d = set (done_list s) \<Longrightarrow> fst (next_task dag (s\<lparr>done_list := d\<rparr>)) = fst (next_task dag s)"
  by (simp add: next_task_result ready_frame)

lemma next_task_None_state:
  assumes "fst (next_task dag s) = Inr None"
  shows "next_task dag s =
           (Inr None, s\<lparr>done_list := done_list s @ filter (\<lambda>t. exec_status s t = Aborted) dag,
                        self_i := self_i s + 1\<rparr>)"
proof -
  from assms have nb: "BrokenProcessPool \<notin> exec_status s ` set dag"
    by (auto simp: next_task_result split: if_splits)
  have "snd (next_task dag s) =
          s\<lparr>done_list := done_list s @ filter (\<lambda>t. exec_status s t = Aborted) dag,
            self_i := self_i s + 1\<rparr>"
    using assms nb by (simp add: next_task_state takeWhile_no_broken)
  with assms show ?thesis by (metis prod.collapse)
qed

lemma polls_repeat:
  assumes "fst (next_task dag s) = Inr None"
  shows "run setter dag res (replicate k Poll) (InLoop, s) =
           (InLoop, s\<lparr>done_list := done_list s @ concat (replicate k (filter (\<lambda>t. exec_status s t = Aborted) dag)),
                      self_i := self_i s + k\<rparr>)"
  using assms
proof (induction k arbitrary: s)
  case 0
  then show ?case by (simp add: run_Nil)
next
  case (Suc k)
  let ?ab = "filter (\<lambda>t. exec_status s t = Aborted) dag"
  let ?s1 = "s\<lparr>done_list := done_list s @ ?ab, self_i := self_i s + 1\<rparr>"
  have st: "step setter dag res (InLoop, s) Poll = (InLoop, ?s1)"
    using next_task_None_state[OF Suc.prems] by simp
  have "fst (next_task dag ?s1) = fst (next_task dag s)"
    by (simp add: next_task_result ready_frame Un_assoc)
  with Suc.prems have n1: "fst (next_task dag ?s1) = Inr None" by simp
  from Suc.IH[OF n1] st show ?case
    by (simp add: run_Cons)
qed

lemma count_list_concat_replicate:
  "count_list (concat (replicate k xs)) x = k * count_list xs x"
  by (induction k) simp_all

lemma count_list_pos: "x \<in> set xs \<Longrightarrow> 1 \<le> count_list xs x"
  by (induction xs) auto

section \<open>The claims\<close>

subsection \<open>What the run reports\<close>

text \<open>
  C1 (as amended). After the loop has left, the run raises \<open>DAGBuildError\<close>, carrying in the
  order of dispatch the exception results of the futures, exactly when no future of
  \<open>future_mapping\<close> raises from \<open>result()\<close> and at least one holds an
  \<open>ExceptionResult\<close>; with no exception result it returns normally. When some future
  raises, the run fails with the exception of the first such future in the order of
  dispatch: for a broken pool that is the \<open>BrokenProcessPool\<close> of \<open>get_future_result\<close>
  with the future's task, not \<open>DAGBuildError\<close>. So a pool fault of a dispatched future
  fails the run also when there is no exception result.
\<close>

theorem run_report:
  assumes "Parallel_call Executor_call setter dag st i0 res es = Inr (Some (r, s))"
  shows "(no_raise res (future_mapping s) \<longrightarrow>
            r = (if exception_results res (future_mapping s) = [] then Inr ()
                 else Inl (DAGBuildError (exception_results res (future_mapping s))))) \<and>
         ((\<exists>exps. r = Inl (DAGBuildError exps)) \<longleftrightarrow>
            no_raise res (future_mapping s) \<and> exception_results res (future_mapping s) \<noteq> []) \<and>
         (\<not> no_raise res (future_mapping s) \<longrightarrow>
            (\<exists>pre f t post x u.
               future_mapping s = pre @ (f, t) # post \<and> no_raise res pre \<and> res f = Raises x \<and>
               map_of (future_mapping s) f = Some u \<and>
               r = Inl (case x of BrokenProcessPoolRaised \<Rightarrow> BrokenProcessPoolError u
                                | OtherRaised e \<Rightarrow> Propagated (OtherRaised e)))) \<and>
         (\<not> no_raise res (future_mapping s) \<longrightarrow> r \<noteq> Inr ())"
proof -
  from assms have r: "r = aggregate res (future_mapping s)"
    by (auto simp: Parallel_call_def split: sum.splits prod.splits control.splits)
  let ?fm = "future_mapping s"
  have a: "r = (if exception_results res ?fm = [] then Inr ()
                else Inl (DAGBuildError (exception_results res ?fm)))" if "no_raise res ?fm"
    using that r by (simp add: aggregate_no_raise)
  have c: "\<exists>pre f t post x u.
               ?fm = pre @ (f, t) # post \<and> no_raise res pre \<and> res f = Raises x \<and>
               map_of ?fm f = Some u \<and>
               r = Inl (case x of BrokenProcessPoolRaised \<Rightarrow> BrokenProcessPoolError u
                                | OtherRaised e \<Rightarrow> Propagated (OtherRaised e))" if "\<not> no_raise res ?fm"
    using aggregate_raise[OF that] r by simp
  have d: "r \<noteq> Inr () \<and> (\<forall>exps. r \<noteq> Inl (DAGBuildError exps))" if n: "\<not> no_raise res ?fm"
  proof -
    from c[OF n] obtain x u where
      "r = Inl (case x of BrokenProcessPoolRaised \<Rightarrow> BrokenProcessPoolError u
                         | OtherRaised e \<Rightarrow> Propagated (OtherRaised e))" by blast
    then show ?thesis by (cases x) simp_all
  qed
  have b: "(\<exists>exps. r = Inl (DAGBuildError exps)) \<longleftrightarrow>
            no_raise res ?fm \<and> exception_results res ?fm \<noteq> []"
  proof (cases "no_raise res ?fm")
    case True
    with a[OF True] show ?thesis by auto
  next
    case False
    with d[OF False] show ?thesis by simp
  qed
  from a b c d show ?thesis by blast
qed

text \<open>
  The theorem at a run of two tasks, the first of which raises a \<open>ValueError\<close> in its
  build: the report names that task alone.
\<close>

theorem run_report_witness:
  "Parallel_call (\<lambda>d st. Inr ()) assign [''a'', ''b''] (\<lambda>n. WaitingExecution) 0
     (\<lambda>f. if f = 0 then Returns (ExceptionResult ''a'' ''Traceback: ValueError'')
           else Returns (Returned (StatusValue Executed)))
     [Poll, Poll, Fire 0, Fire 1, Poll]
   = Inr (Some (Inl (DAGBuildError [ExceptionResult ''a'' ''Traceback: ValueError'']),
           \<lparr>exec_status = (\<lambda>n. WaitingExecution)(''a'' := Errored, ''b'' := Executed),
            done_list = [''a'', ''b''], started = [''a'', ''b''],
            future_mapping = [(0, ''a''), (Suc 0, ''b'')], self_i = 0\<rparr>))"
proof -
  let ?res = "\<lambda>f::nat. if f = 0 then Returns (ExceptionResult ''a'' ''Traceback: ValueError'')
                        else Returns (Returned (StatusValue Executed))"
  let ?s = "\<lparr>exec_status = (\<lambda>n. WaitingExecution)(''a'' := Errored, ''b'' := Executed),
            done_list = [''a'', ''b''], started = [''a'', ''b''],
            future_mapping = [(0, ''a''), (Suc 0, ''b'')], self_i = 0\<rparr>"
  have run: "run assign [''a'', ''b''] ?res [Poll, Poll, Fire 0, Fire 1, Poll]
               (InLoop, initial [''a'', ''b''] (\<lambda>n. WaitingExecution) 0) = (LeftLoop, ?s)"
    by (simp add: run_def initial_def next_task_def ready_def submit_def record_dispatch_def
                  new_future_def callback_def assign_def)
  then have h: "Parallel_call (\<lambda>d st. Inr ()) assign [''a'', ''b''] (\<lambda>n. WaitingExecution) 0 ?res
                  [Poll, Poll, Fire 0, Fire 1, Poll]
             = Inr (Some (aggregate ?res (future_mapping ?s), ?s))"
    by (simp add: Parallel_call_def)
  have nr: "no_raise ?res (future_mapping ?s)" by (simp add: no_raise_def)
  have ex: "exception_results ?res (future_mapping ?s) = [ExceptionResult ''a'' ''Traceback: ValueError'']"
    by (simp add: exception_results_def)
  from run_report[OF h] nr ex
  have "aggregate ?res (future_mapping ?s) = Inl (DAGBuildError [ExceptionResult ''a'' ''Traceback: ValueError''])"
    by simp
  with h show ?thesis by simp
qed

text \<open>
  C1 as stated fails: one task is dispatched, the pool breaks, the callback flags the task
  \<open>BrokenProcessPool\<close> and the next poll leaves the loop. The run then raises
  \<open>BrokenProcessPool\<close> for the task, not the aggregate \<open>DAGBuildError\<close>.
\<close>

theorem broken_pool_run_raises_BrokenProcessPool:
  "Parallel_call (\<lambda>d st. Inr ()) assign [''a''] (\<lambda>n. WaitingExecution) 0
     (\<lambda>f. Raises BrokenProcessPoolRaised) [Poll, Fire 0, Poll]
   = Inr (Some (Inl (BrokenProcessPoolError ''a''),
           \<lparr>exec_status = (\<lambda>n. WaitingExecution)(''a'' := BrokenProcessPool),
            done_list = [''a''], started = [''a''], future_mapping = [(0, ''a'')], self_i = 0\<rparr>))"
  by (simp add: Parallel_call_def run_def initial_def next_task_def ready_def submit_def
                record_dispatch_def new_future_def callback_def assign_def
                aggregate_def get_future_result_def)

subsection \<open>Selecting the next task\<close>

text \<open>
  C2 (as amended). When some task of the DAG has the status \<open>BrokenProcessPool\<close>,
  \<open>next_task\<close> raises \<open>StopIteration\<close>. Otherwise it appends the \<open>Aborted\<close> tasks to
  \<open>done\<close> and returns the first task, in the DAG's order, that waits for execution and
  is not in \<open>started\<close>; when there is none, it raises \<open>StopIteration\<close> exactly when the
  names in \<open>done\<close>, as it then stands, are the names of the DAG, and returns \<open>None\<close>
  otherwise.
\<close>

theorem next_task_selection:
  "(BrokenProcessPool \<in> exec_status s ` set dag \<longrightarrow> fst (next_task dag s) = Inl StopIteration) \<and>
   (BrokenProcessPool \<notin> exec_status s ` set dag \<longrightarrow>
      done_list (snd (next_task dag s)) = done_list s @ filter (\<lambda>t. exec_status s t = Aborted) dag \<and>
      (\<forall>t. fst (next_task dag s) = Inr (Some t) \<longleftrightarrow>
             (\<exists>pre post. dag = pre @ t # post \<and> ready s t \<and> (\<forall>u\<in>set pre. \<not> ready s u))) \<and>
      (fst (next_task dag s) = Inl StopIteration \<longleftrightarrow>
         (\<forall>u\<in>set dag. \<not> ready s u) \<and> set (done_list (snd (next_task dag s))) = set dag) \<and>
      (fst (next_task dag s) = Inr None \<longleftrightarrow>
         (\<forall>u\<in>set dag. \<not> ready s u) \<and> set (done_list (snd (next_task dag s))) \<noteq> set dag))"
proof (cases "BrokenProcessPool \<in> exec_status s ` set dag")
  case True
  then show ?thesis by (simp add: next_task_result)
next
  case False
  have dn: "done_list (snd (next_task dag s)) = done_list s @ filter (\<lambda>t. exec_status s t = Aborted) dag"
    using False by (simp add: next_task_state takeWhile_no_broken)
  have sel: "fst (next_task dag s) = Inr (Some t) \<longleftrightarrow>
             (\<exists>pre post. dag = pre @ t # post \<and> ready s t \<and> (\<forall>u\<in>set pre. \<not> ready s u))" for t
  proof -
    have "fst (next_task dag s) = Inr (Some t) \<longleftrightarrow> find (ready s) dag = Some t"
      using False by (auto simp: next_task_result split: option.splits)
    then show ?thesis by (simp add: find_Some_split)
  qed
  have sd: "set (done_list (snd (next_task dag s))) =
            set (done_list s) \<union> {t \<in> set dag. exec_status s t = Aborted}"
    by (auto simp: dn)
  have fn: "(\<forall>u\<in>set dag. \<not> ready s u) \<longleftrightarrow> find (ready s) dag = None"
    by (auto simp: find_None_iff)
  have stop: "fst (next_task dag s) = Inl StopIteration \<longleftrightarrow>
         (\<forall>u\<in>set dag. \<not> ready s u) \<and> set (done_list (snd (next_task dag s))) = set dag"
    unfolding sd fn using False
    by (cases "find (ready s) dag") (simp_all add: next_task_result)
  have none: "fst (next_task dag s) = Inr None \<longleftrightarrow>
         (\<forall>u\<in>set dag. \<not> ready s u) \<and> set (done_list (snd (next_task dag s))) \<noteq> set dag"
    unfolding sd fn using False
    by (cases "find (ready s) dag") (simp_all add: next_task_result)
  from False dn sel stop none show ?thesis by blast
qed

text \<open>
  The theorem at a DAG of three tasks: the first executed, the second in flight, the third
  waiting; the third is selected.
\<close>

theorem next_task_selection_witness:
  "BrokenProcessPool \<notin>
     exec_status \<lparr>exec_status = (\<lambda>n. WaitingExecution)(''a'' := Executed), done_list = [''a''],
                  started = [''b''], future_mapping = [(0, ''b'')], self_i = 0\<rparr> ` set [''a'', ''b'', ''c''] \<and>
   fst (next_task [''a'', ''b'', ''c'']
          \<lparr>exec_status = (\<lambda>n. WaitingExecution)(''a'' := Executed), done_list = [''a''],
           started = [''b''], future_mapping = [(0, ''b'')], self_i = 0\<rparr>) = Inr (Some ''c'')"
proof -
  let ?s = "\<lparr>exec_status = (\<lambda>n. WaitingExecution)(''a'' := Executed), done_list = [''a''],
             started = [''b''], future_mapping = [(0, ''b'')], self_i = 0\<rparr>"
  let ?dag = "[''a'', ''b'', ''c'']"
  have h: "BrokenProcessPool \<notin> exec_status ?s ` set ?dag" by simp
  have "?dag = [''a'', ''b''] @ ''c'' # [] \<and> ready ?s ''c'' \<and> (\<forall>u\<in>set [''a'', ''b'']. \<not> ready ?s u)"
    by (simp add: ready_def)
  then have e: "\<exists>pre post. ?dag = pre @ ''c'' # post \<and> ready ?s ''c'' \<and> (\<forall>u\<in>set pre. \<not> ready ?s u)"
    by blast
  from next_task_selection[of ?s ?dag] h e show ?thesis by blast
qed

text \<open>
  C2 as stated fails: after the pool broke under the first of two tasks, the second task
  waits for execution and is not started, yet the call raises \<open>StopIteration\<close>, and it
  does so although \<open>done\<close> holds only the first task.
\<close>

theorem next_task_stops_before_ready_task:
  "ready (snd (run assign [''a'', ''b''] (\<lambda>f. Raises BrokenProcessPoolRaised) [Poll, Fire 0]
                 (InLoop, initial [''a'', ''b''] (\<lambda>n. WaitingExecution) 0))) ''b'' \<and>
   fst (next_task [''a'', ''b'']
          (snd (run assign [''a'', ''b''] (\<lambda>f. Raises BrokenProcessPoolRaised) [Poll, Fire 0]
                  (InLoop, initial [''a'', ''b''] (\<lambda>n. WaitingExecution) 0)))) = Inl StopIteration \<and>
   done_list (snd (next_task [''a'', ''b'']
          (snd (run assign [''a'', ''b''] (\<lambda>f. Raises BrokenProcessPoolRaised) [Poll, Fire 0]
                  (InLoop, initial [''a'', ''b''] (\<lambda>n. WaitingExecution) 0))))) = [''a'']"
  by (simp add: run_def initial_def next_task_def ready_def submit_def record_dispatch_def
                new_future_def callback_def assign_def)

text \<open>
  C3. A task that \<open>next_task\<close> returns has the status \<open>WaitingExecution\<close>, so never
  \<open>Aborted\<close>, and a step of a run appends to \<open>started\<close> nothing but such a task. When
  a task of the DAG has the status \<open>BrokenProcessPool\<close> at a poll, \<open>next_task\<close> raises
  \<open>StopIteration\<close>, the loop is left, and whatever events follow, \<open>started\<close> and
  \<open>future_mapping\<close> stay as they were: nothing more is submitted, however many tasks
  wait for execution. This holds for every setter, and for each kind of iteration.
\<close>

theorem aborted_and_broken_pool_absorbing:
  "(fst (next_task dag s) = Inr (Some t) \<longrightarrow>
      exec_status s t = WaitingExecution \<and> exec_status s t \<noteq> Aborted) \<and>
   (started (snd (step setter dag res (c, s) e)) = started s \<or>
      (\<exists>t. started (snd (step setter dag res (c, s) e)) = started s @ [t] \<and>
           exec_status s t = WaitingExecution)) \<and>
   (BrokenProcessPool \<in> exec_status s ` set dag \<longrightarrow>
      fst (next_task dag s) = Inl StopIteration \<and>
      fst (run setter dag res (Poll # es) (InLoop, s)) = LeftLoop \<and>
      started (snd (run setter dag res (Poll # es) (InLoop, s))) = started s \<and>
      future_mapping (snd (run setter dag res (Poll # es) (InLoop, s))) = future_mapping s) \<and>
   (BrokenProcessPool \<in> exec_status s ` set dag \<and> (\<forall>f. e \<noteq> Fire f) \<longrightarrow>
      fst (run setter dag res (e # es) (InLoop, s)) = LeftLoop \<and>
      started (snd (run setter dag res (e # es) (InLoop, s))) = started s \<and>
      future_mapping (snd (run setter dag res (e # es) (InLoop, s))) = future_mapping s)"
proof -
  have a: "fst (next_task dag s) = Inr (Some t) \<longrightarrow>
             exec_status s t = WaitingExecution \<and> exec_status s t \<noteq> Aborted"
    using next_task_Some(1)[of dag s t] by simp
  have b: "started (snd (step setter dag res (c, s) e)) = started s \<or>
      (\<exists>t. started (snd (step setter dag res (c, s) e)) = started s @ [t] \<and>
           exec_status s t = WaitingExecution)"
  proof (cases rule: step_cases[where setter=setter and dag=dag and res=res and c=c and s=s and e=e])
    case same
    then show ?thesis by simp
  next
    case (submitted u)
    with next_task_Some(1)[OF submitted(3)] show ?thesis by blast
  qed
  have d: "fst (next_task dag s) = Inl StopIteration \<and>
      fst (run setter dag res (e' # es) (InLoop, s)) = LeftLoop \<and>
      started (snd (run setter dag res (e' # es) (InLoop, s))) = started s \<and>
      future_mapping (snd (run setter dag res (e' # es) (InLoop, s))) = future_mapping s"
    if br: "BrokenProcessPool \<in> exec_status s ` set dag" and ne: "\<forall>f. e' \<noteq> Fire f" for e'
  proof -
    from br have stop: "fst (next_task dag s) = Inl StopIteration"
      by (simp add: next_task_result)
    obtain s' where s': "next_task dag s = (Inl StopIteration, s')"
      using stop by (cases "next_task dag s") simp
    have st: "step setter dag res (InLoop, s) e' = (LeftLoop, s')"
      using s' ne by (cases e') simp_all
    have fr: "started s' = started s" "future_mapping s' = future_mapping s"
      using next_task_frame(2,3)[of dag s] s' by simp_all
    from run_stopped[of LeftLoop setter dag res es s'] st fr stop show ?thesis
      by (simp add: run_Cons)
  qed
  have c3: "BrokenProcessPool \<in> exec_status s ` set dag \<longrightarrow>
      fst (next_task dag s) = Inl StopIteration \<and>
      fst (run setter dag res (Poll # es) (InLoop, s)) = LeftLoop \<and>
      started (snd (run setter dag res (Poll # es) (InLoop, s))) = started s \<and>
      future_mapping (snd (run setter dag res (Poll # es) (InLoop, s))) = future_mapping s"
    using d[of Poll] by simp
  from a b c3 d[of e] show ?thesis by blast
qed

text \<open>
  The theorem at a DAG with a broken first task, an aborted second and a waiting third:
  the polls that follow submit nothing.
\<close>

theorem aborted_and_broken_pool_absorbing_witness:
  "BrokenProcessPool \<in>
     exec_status \<lparr>exec_status = (\<lambda>n. WaitingExecution)(''a'' := BrokenProcessPool, ''b'' := Aborted),
                  done_list = [''a''], started = [''a''], future_mapping = [(0, ''a'')], self_i = 0\<rparr>
       ` set [''a'', ''b'', ''c''] \<and>
   fst (next_task [''a'', ''b'', ''c'']
     \<lparr>exec_status = (\<lambda>n. WaitingExecution)(''a'' := BrokenProcessPool, ''b'' := Aborted),
      done_list = [''a''], started = [''a''], future_mapping = [(0, ''a'')], self_i = 0\<rparr>) = Inl StopIteration \<and>
   started (snd (run assign [''a'', ''b'', ''c''] (\<lambda>f. Raises BrokenProcessPoolRaised) [Poll, Poll, Fire 0, Poll]
     (InLoop, \<lparr>exec_status = (\<lambda>n. WaitingExecution)(''a'' := BrokenProcessPool, ''b'' := Aborted),
      done_list = [''a''], started = [''a''], future_mapping = [(0, ''a'')], self_i = 0\<rparr>))) = [''a'']"
proof -
  let ?s = "\<lparr>exec_status = (\<lambda>n. WaitingExecution)(''a'' := BrokenProcessPool, ''b'' := Aborted),
      done_list = [''a''], started = [''a''], future_mapping = [(0, ''a'')], self_i = 0\<rparr>"
  have h: "BrokenProcessPool \<in> exec_status ?s ` set [''a'', ''b'', ''c'']" by simp
  from aborted_and_broken_pool_absorbing
         [where s = ?s and dag = "[''a'', ''b'', ''c'']" and es = "[Poll, Fire 0, Poll]"
            and res = "\<lambda>f. Raises BrokenProcessPoolRaised" and setter = assign] h
  show ?thesis by simp
qed

subsection \<open>The completion callback\<close>

text \<open>
  C4, at an input where the code does not do what the claim says. The loop registers the
  callback with \<open>add_done_callback\<close> before it enters the future in \<open>future_mapping\<close>.
  For a one-task DAG whose build returns \<open>Executed\<close>, and a dispatch during which the
  callback of the new future runs in between: the callback raises \<open>KeyError\<close> at its first
  statement, so the dispatched task keeps the status \<open>WaitingExecution\<close> and is not
  appended to \<open>done\<close>; two polls later the loop is still running, with the task in
  \<open>started\<close> and nothing in \<open>done\<close>.
\<close>

theorem callback_before_mapping_drops_task:
  "callback assign (\<lambda>f. Returns (Returned (StatusValue Executed)))
     (new_future (future_mapping (snd (next_task [''a''] (initial [''a''] (\<lambda>n. WaitingExecution) 0)))))
     (snd (next_task [''a''] (initial [''a''] (\<lambda>n. WaitingExecution) 0))) = Inl KeyError \<and>
   run assign [''a''] (\<lambda>f. Returns (Returned (StatusValue Executed))) [PollCallbackEarly, Poll, Poll]
     (InLoop, initial [''a''] (\<lambda>n. WaitingExecution) 0)
   = (InLoop, \<lparr>exec_status = (\<lambda>n. WaitingExecution), done_list = [],
               started = [''a''], future_mapping = [(0, ''a'')], self_i = 2\<rparr>)"
  by (simp add: run_def initial_def next_task_def ready_def submit_def record_dispatch_def
                new_future_def callback_def assign_def)

subsection \<open>The isolated build invocation\<close>

text \<open>
  C5 (as amended). \<open>TaskBuildWrapper.__call__\<close> returns what the build returns when
  the build succeeds. When the build raises an instance of \<open>Exception\<close> it returns an
  \<open>ExceptionResult\<close> with the task's \<open>repr\<close> and the rendered trace, and the exception
  does not leave the invocation. An exception that is not an instance of \<open>Exception\<close>
  is not caught by \<open>except Exception\<close> and leaves the invocation.
\<close>

theorem TaskBuildWrapper_call_result:
  "(build kwargs = Inr v \<longrightarrow>
      TaskBuildWrapper_call repr_task build kwargs = Inr (Returned v)) \<and>
   (build kwargs = Inl (ExceptionInstance tb) \<longrightarrow>
      TaskBuildWrapper_call repr_task build kwargs = Inr (ExceptionResult repr_task tb)) \<and>
   (build kwargs = Inl (BaseExceptionOnly tb) \<longrightarrow>
      TaskBuildWrapper_call repr_task build kwargs = Inl (BaseExceptionOnly tb))"
  by (simp add: TaskBuildWrapper_call_def)

text \<open>The theorem at a build that raises a \<open>ValueError\<close>.\<close>

theorem TaskBuildWrapper_call_result_witness:
  "TaskBuildWrapper_call ''SQLScript: load'' (\<lambda>k::unit. Inl (ExceptionInstance ''Traceback: ValueError'')) ()
     = Inr (ExceptionResult ''SQLScript: load'' ''Traceback: ValueError'')"
  using TaskBuildWrapper_call_result
          [where build = "\<lambda>k::unit. Inl (ExceptionInstance ''Traceback: ValueError'')"
             and kwargs = "()" and tb = "''Traceback: ValueError''"
             and repr_task = "''SQLScript: load''"]
  by simp

text \<open>
  C5 as stated fails: a build that raises \<open>SystemExit\<close> (a task calling \<open>sys.exit()\<close>)
  is not turned into an \<open>ExceptionResult\<close>; the exception leaves the invocation.
\<close>

theorem TaskBuildWrapper_call_SystemExit_propagates:
  "TaskBuildWrapper_call ''SQLScript: load'' (\<lambda>k::unit. Inl (BaseExceptionOnly ''SystemExit'')) ()
     = Inl (BaseExceptionOnly ''SystemExit'')"
  by (simp add: TaskBuildWrapper_call_def)

subsection \<open>Whole runs\<close>



text \<open>
  C7. A task in \<open>started\<close> is never returned by \<open>next_task\<close>. Along any run
  \<open>started\<close> stays free of duplicates; from the start of \<open>__call__\<close> it has no
  duplicates at any point, and the tasks of \<open>future_mapping\<close> are those of \<open>started\<close>,
  one future each: no task is submitted twice.
\<close>

theorem at_most_once_submission:
  "(t \<in> set (started s) \<longrightarrow> fst (next_task dag s) \<noteq> Inr (Some t)) \<and>
   (distinct (started s) \<longrightarrow> distinct (started (snd (run setter dag res es (c, s))))) \<and>
   distinct (started (snd (run setter dag res es (InLoop, initial dag st i0)))) \<and>
   map snd (future_mapping (snd (run setter dag res es (InLoop, initial dag st i0)))) =
     started (snd (run setter dag res es (InLoop, initial dag st i0)))"
proof -
  have a: "t \<in> set (started s) \<longrightarrow> fst (next_task dag s) \<noteq> Inr (Some t)"
    using next_task_Some(2)[of dag s t] by blast
  have b: "distinct (started s) \<longrightarrow> distinct (started (snd (run setter dag res es (c, s))))"
    using run_distinct by blast
  have c: "distinct (started (snd (run setter dag res es (InLoop, initial dag st i0))))"
    by (rule run_distinct) (simp add: initial_def)
  have d: "map snd (future_mapping (snd (run setter dag res es (InLoop, initial dag st i0)))) =
     started (snd (run setter dag res es (InLoop, initial dag st i0)))"
    by (rule run_mapping) (simp add: initial_def)
  from a b c d show ?thesis by blast
qed

text \<open>
  The theorem at a DAG of two waiting tasks: after the first is submitted it is not
  selected again, and the iterations that follow submit the second once.
\<close>

theorem at_most_once_submission_witness:
  "''a'' \<in> set (started (submit ''a'' (initial [''a'', ''b''] (\<lambda>n. WaitingExecution) 0))) \<and>
   fst (next_task [''a'', ''b''] (submit ''a'' (initial [''a'', ''b''] (\<lambda>n. WaitingExecution) 0)))
     \<noteq> Inr (Some ''a'') \<and>
   started (snd (run assign [''a'', ''b''] (\<lambda>f. Returns (Returned (StatusValue Executed)))
                   [Poll, PollCallbackEarly, Poll, Fire 1, Poll]
                   (InLoop, initial [''a'', ''b''] (\<lambda>n. WaitingExecution) 0))) = [''a'', ''b'']"
proof -
  let ?s = "submit ''a'' (initial [''a'', ''b''] (\<lambda>n. WaitingExecution) 0)"
  have h: "''a'' \<in> set (started ?s)" by (simp add: submit_def record_dispatch_def initial_def)
  have r: "started (snd (run assign [''a'', ''b''] (\<lambda>f. Returns (Returned (StatusValue Executed)))
                   [Poll, PollCallbackEarly, Poll, Fire 1, Poll]
                   (InLoop, initial [''a'', ''b''] (\<lambda>n. WaitingExecution) 0))) = [''a'', ''b'']"
    by (simp add: run_def initial_def next_task_def ready_def submit_def record_dispatch_def
                  new_future_def callback_def assign_def)
  from at_most_once_submission[where t = "''a''" and s = ?s and dag = "[''a'', ''b'']"] h r
  show ?thesis by blast
qed

text \<open>
  C8 (as amended). A poll writes no status, also when it leaves the loop on a
  \<open>BrokenProcessPool\<close> status. The only assignment of the executor is the one of
  \<open>callback\<close>, to the task of a future of \<open>future_mapping\<close>, hence to a submitted task.
  A task that the setter does not re-derive when another task is assigned, and that is not
  in \<open>started\<close> at the end of a run, has the status it had at the beginning; the run may
  start in any state in which the tasks of \<open>future_mapping\<close> are in \<open>started\<close>, as at
  the start of \<open>__call__\<close>. What the setter derives for a task that was never submitted
  is not excluded.
\<close>

theorem executor_assigns_submitted_tasks_only:
  "exec_status (snd (next_task dag s)) = exec_status s \<and>
   (callback setter res fut s = Inr s' \<longrightarrow>
      (\<exists>t v. map_of (future_mapping s) fut = Some t \<and>
             setter t v (exec_status s) = Inr (exec_status s'))) \<and>
   ((\<forall>t v st st'. t \<noteq> n \<longrightarrow> setter t v st = Inr st' \<longrightarrow> st' n = st n) \<and>
    snd ` set (future_mapping s) \<subseteq> set (started s) \<and>
    n \<notin> set (started (snd (run setter dag res es (c, s)))) \<longrightarrow>
      exec_status (snd (run setter dag res es (c, s))) n = exec_status s n) \<and>
   ((\<forall>t v st st'. t \<noteq> n \<longrightarrow> setter t v st = Inr st' \<longrightarrow> st' n = st n) \<and>
    n \<notin> set (started (snd (run setter dag res es (InLoop, initial dag st0 i0)))) \<longrightarrow>
      exec_status (snd (run setter dag res es (InLoop, initial dag st0 i0))) n = st0 n)"
proof -
  have a: "exec_status (snd (next_task dag s)) = exec_status s"
    by (rule next_task_frame(1))
  have b: "callback setter res fut s = Inr s' \<longrightarrow>
      (\<exists>t v. map_of (future_mapping s) fut = Some t \<and>
             setter t v (exec_status s) = Inr (exec_status s'))"
    using callback_frame(4)[of setter res fut s s'] by blast
  have c: "exec_status (snd (run setter dag res es (c, s))) n = exec_status s n"
    if "\<forall>t v st st'. t \<noteq> n \<longrightarrow> setter t v st = Inr st' \<longrightarrow> st' n = st n"
      and "snd ` set (future_mapping s) \<subseteq> set (started s)"
      and "n \<notin> set (started (snd (run setter dag res es (c, s))))"
    using run_unstarted[OF that(2) that(1), of dag res es c] that(3) by blast
  have d: "exec_status (snd (run setter dag res es (InLoop, initial dag st0 i0))) n = st0 n"
    if h: "\<forall>t v st st'. t \<noteq> n \<longrightarrow> setter t v st = Inr st' \<longrightarrow> st' n = st n"
      and n: "n \<notin> set (started (snd (run setter dag res es (InLoop, initial dag st0 i0))))"
  proof -
    have i: "snd ` set (future_mapping (initial dag st0 i0)) \<subseteq> set (started (initial dag st0 i0))"
      by (simp add: initial_def)
    from run_unstarted[OF i h, of dag res es InLoop] n show ?thesis
      by (simp add: initial_def)
  qed
  from a b c d show ?thesis by blast
qed

text \<open>
  The theorem at five independent waiting tasks of which two are dispatched before the
  pool breaks: the loop is left and the third task still waits for execution.
\<close>

theorem executor_assigns_submitted_tasks_only_witness:
  "started (snd (run assign [''a'', ''b'', ''c'', ''d'', ''e''] (\<lambda>f. Raises BrokenProcessPoolRaised)
                  [Poll, Poll, Fire 0, Poll, Fire 1, Poll]
                  (InLoop, initial [''a'', ''b'', ''c'', ''d'', ''e''] (\<lambda>n. WaitingExecution) 0)))
     = [''a'', ''b''] \<and>
   fst (run assign [''a'', ''b'', ''c'', ''d'', ''e''] (\<lambda>f. Raises BrokenProcessPoolRaised)
                  [Poll, Poll, Fire 0, Poll, Fire 1, Poll]
                  (InLoop, initial [''a'', ''b'', ''c'', ''d'', ''e''] (\<lambda>n. WaitingExecution) 0)) = LeftLoop \<and>
   exec_status (snd (run assign [''a'', ''b'', ''c'', ''d'', ''e''] (\<lambda>f. Raises BrokenProcessPoolRaised)
                  [Poll, Poll, Fire 0, Poll, Fire 1, Poll]
                  (InLoop, initial [''a'', ''b'', ''c'', ''d'', ''e''] (\<lambda>n. WaitingExecution) 0))) ''c''
     = WaitingExecution"
proof -
  let ?dag = "[''a'', ''b'', ''c'', ''d'', ''e'']"
  let ?r = "run assign ?dag (\<lambda>f. Raises BrokenProcessPoolRaised) [Poll, Poll, Fire 0, Poll, Fire 1, Poll]
              (InLoop, initial ?dag (\<lambda>n. WaitingExecution) 0)"
  have st: "started (snd ?r) = [''a'', ''b'']" and fl: "fst ?r = LeftLoop"
    by (simp_all add: run_def initial_def next_task_def ready_def submit_def record_dispatch_def
                      new_future_def callback_def assign_def)
  then have h: "''c'' \<notin> set (started (snd ?r))" by simp
  have k: "\<forall>t v st st'. t \<noteq> ''c'' \<longrightarrow> assign t v st = Inr st' \<longrightarrow> st' ''c'' = st ''c''"
    by (auto simp: assign_def split: py_value.splits)
  from executor_assigns_submitted_tasks_only
         [where dag = ?dag and res = "\<lambda>f. Raises BrokenProcessPoolRaised" and setter = assign
            and es = "[Poll, Poll, Fire 0, Poll, Fire 1, Poll]" and ?st0.0 = "\<lambda>n. WaitingExecution"
            and ?i0.0 = 0 and n = "''c''"] h k
  have "exec_status (snd ?r) ''c'' = WaitingExecution" by blast
  with st fl show ?thesis by blast
qed

text \<open>
  C8 as stated fails: of three tasks the third depends on the second. The first two are
  dispatched and the pool breaks; the callback of the first flags it and the next poll
  leaves the loop, with the third task still waiting for its upstream task. As the pool
  shuts down the callback of the second task assigns \<open>BrokenProcessPool\<close> to it, and the
  task model makes the third task, which was never submitted, \<open>Aborted\<close>.
\<close>

theorem dependent_of_broken_task_is_aborted_after_halt:
  "fst (run (assign_and_abort_dependents (\<lambda>n. if n = ''c'' then [''b''] else []) [''a'', ''b'', ''c''])
          [''a'', ''b'', ''c''] (\<lambda>f. Raises BrokenProcessPoolRaised) [Poll, Poll, Fire 0, Poll]
          (InLoop, initial [''a'', ''b'', ''c''] ((\<lambda>n. WaitingExecution)(''c'' := OtherStatus ''WaitingUpstream'')) 0))
     = LeftLoop \<and>
   exec_status (snd (run (assign_and_abort_dependents (\<lambda>n. if n = ''c'' then [''b''] else []) [''a'', ''b'', ''c''])
          [''a'', ''b'', ''c''] (\<lambda>f. Raises BrokenProcessPoolRaised) [Poll, Poll, Fire 0, Poll]
          (InLoop, initial [''a'', ''b'', ''c''] ((\<lambda>n. WaitingExecution)(''c'' := OtherStatus ''WaitingUpstream'')) 0))) ''c''
     = OtherStatus ''WaitingUpstream'' \<and>
   started (snd (run (assign_and_abort_dependents (\<lambda>n. if n = ''c'' then [''b''] else []) [''a'', ''b'', ''c''])
          [''a'', ''b'', ''c''] (\<lambda>f. Raises BrokenProcessPoolRaised) [Poll, Poll, Fire 0, Poll, Fire 1]
          (InLoop, initial [''a'', ''b'', ''c''] ((\<lambda>n. WaitingExecution)(''c'' := OtherStatus ''WaitingUpstream'')) 0)))
     = [''a'', ''b''] \<and>
   exec_status (snd (run (assign_and_abort_dependents (\<lambda>n. if n = ''c'' then [''b''] else []) [''a'', ''b'', ''c''])
          [''a'', ''b'', ''c''] (\<lambda>f. Raises BrokenProcessPoolRaised) [Poll, Poll, Fire 0, Poll, Fire 1]
          (InLoop, initial [''a'', ''b'', ''c''] ((\<lambda>n. WaitingExecution)(''c'' := OtherStatus ''WaitingUpstream'')) 0))) ''c''
     = Aborted"
  by (simp add: run_def initial_def next_task_def ready_def submit_def record_dispatch_def
                new_future_def callback_def assign_and_abort_dependents_def)

text \<open>
  C9 (as amended). \<open>done\<close> is a list, and each poll appends to it, without looking
  whether they are in it, the \<open>Aborted\<close> tasks that come before the first
  \<open>BrokenProcessPool\<close> task in the DAG's order (all \<open>Aborted\<close> tasks when there is
  none). While polls return \<open>None\<close>, \<open>k\<close> polls append the \<open>Aborted\<close> tasks
  \<open>k\<close> times, so an \<open>Aborted\<close> task occurs in \<open>done\<close> at least \<open>k\<close> more times.
  What \<open>next_task\<close> answers depends on \<open>done\<close> through its set of names only.
\<close>

theorem aborted_tasks_duplicate_in_done:
  "done_list (snd (next_task dag s)) =
     done_list s @ filter (\<lambda>t. exec_status s t = Aborted)
                          (takeWhile (\<lambda>t. exec_status s t \<noteq> BrokenProcessPool) dag) \<and>
   (fst (next_task dag s) = Inr None \<longrightarrow>
      done_list (snd (run setter dag res (replicate k Poll) (InLoop, s))) =
        done_list s @ concat (replicate k (filter (\<lambda>t. exec_status s t = Aborted) dag))) \<and>
   (fst (next_task dag s) = Inr None \<and> t \<in> set dag \<and> exec_status s t = Aborted \<longrightarrow>
      count_list (done_list s) t + k \<le>
        count_list (done_list (snd (run setter dag res (replicate k Poll) (InLoop, s)))) t) \<and>
   (set d = set (done_list s) \<longrightarrow>
      fst (next_task dag (s\<lparr>done_list := d\<rparr>)) = fst (next_task dag s))"
proof -
  let ?ab = "filter (\<lambda>t. exec_status s t = Aborted) dag"
  have a: "done_list (snd (next_task dag s)) =
     done_list s @ filter (\<lambda>t. exec_status s t = Aborted)
                          (takeWhile (\<lambda>t. exec_status s t \<noteq> BrokenProcessPool) dag)"
    by (simp add: next_task_state)
  have b: "done_list (snd (run setter dag res (replicate k Poll) (InLoop, s))) = done_list s @ concat (replicate k ?ab)"
    if "fst (next_task dag s) = Inr None"
    using polls_repeat[OF that, of setter res k] by simp
  have c: "count_list (done_list s) t + k \<le>
        count_list (done_list (snd (run setter dag res (replicate k Poll) (InLoop, s)))) t"
    if n: "fst (next_task dag s) = Inr None" and t: "t \<in> set dag" "exec_status s t = Aborted"
  proof -
    from t have "t \<in> set ?ab" by simp
    then have "1 \<le> count_list ?ab t" by (rule count_list_pos)
    then have "k \<le> k * count_list ?ab t" by simp
    then show ?thesis
      by (simp add: b[OF n] count_list_concat_replicate)
  qed
  have d: "set d = set (done_list s) \<longrightarrow>
      fst (next_task dag (s\<lparr>done_list := d\<rparr>)) = fst (next_task dag s)"
    using next_task_done_set by blast
  from a b c d show ?thesis by blast
qed

text \<open>
  The theorem at an aborted task beside a task in flight: three polls leave four entries
  of the aborted task in \<open>done\<close>.
\<close>

theorem aborted_tasks_duplicate_in_done_witness:
  "fst (next_task [''a'', ''b'']
          \<lparr>exec_status = (\<lambda>n. WaitingExecution)(''a'' := Aborted), done_list = [''a''],
           started = [''b''], future_mapping = [(0, ''b'')], self_i = 1\<rparr>) = Inr None \<and>
   done_list (snd (run assign [''a'', ''b''] (\<lambda>f. Returns (Returned (StatusValue Executed))) (replicate 3 Poll)
     (InLoop, \<lparr>exec_status = (\<lambda>n. WaitingExecution)(''a'' := Aborted), done_list = [''a''],
             started = [''b''], future_mapping = [(0, ''b'')], self_i = 1\<rparr>)))
     = [''a'', ''a'', ''a'', ''a'']"
proof -
  let ?s = "\<lparr>exec_status = (\<lambda>n. WaitingExecution)(''a'' := Aborted), done_list = [''a''],
             started = [''b''], future_mapping = [(0, ''b'')], self_i = 1\<rparr>"
  let ?res = "\<lambda>f::nat. Returns (Returned (StatusValue Executed))"
  have h: "fst (next_task [''a'', ''b''] ?s) = Inr None"
    by (simp add: next_task_def ready_def)
  from aborted_tasks_duplicate_in_done
         [where dag = "[''a'', ''b'']" and s = ?s and k = 3 and res = ?res and setter = assign] h
  have "done_list (snd (run assign [''a'', ''b''] ?res (replicate 3 Poll) (InLoop, ?s)))
          = done_list ?s @ concat (replicate 3 (filter (\<lambda>t. exec_status ?s t = Aborted) [''a'', ''b'']))"
    by blast
  then have "done_list (snd (run assign [''a'', ''b''] ?res (replicate 3 Poll) (InLoop, ?s)))
          = [''a'', ''a'', ''a'', ''a'']"
    by (simp add: numeral_3_eq_3)
  with h show ?thesis by blast
qed

text \<open>
  C9 as stated fails: the poll that meets a \<open>BrokenProcessPool\<close> task first leaves
  the loop before it reaches the \<open>Aborted\<close> task behind it, which is not appended.
\<close>

theorem aborted_task_after_broken_pool_not_appended:
  "exec_status \<lparr>exec_status = (\<lambda>n. WaitingExecution)(''a'' := BrokenProcessPool, ''b'' := Aborted),
                done_list = [''a''], started = [''a''], future_mapping = [(0, ''a'')], self_i = 0\<rparr> ''b''
     = Aborted \<and>
   done_list (snd (next_task [''a'', ''b'']
     \<lparr>exec_status = (\<lambda>n. WaitingExecution)(''a'' := BrokenProcessPool, ''b'' := Aborted),
      done_list = [''a''], started = [''a''], future_mapping = [(0, ''a'')], self_i = 0\<rparr>)) = [''a'']"
  by (simp add: next_task_def)

end
